theory Spec2Isabelle
  imports Complex_Main "HOL-Library.Word"
begin

section \<open>JavaScript strings\<close>

text \<open>
  A JavaScript string is a sequence of UTF-16 code units. The regular expressions of the
  program carry no \<open>u\<close> flag, so they work on code units as well.
\<close>

type_synonym jschar = "16 word"
type_synonym jsstring = "jschar list"

definition chr :: "char \<Rightarrow> jschar" where
  "chr c = word_of_nat (of_char c)"

definition js :: "string \<Rightarrow> jsstring" where
  "js s = map chr s"

text \<open>\<^verbatim>\<open>s.split(sep)\<close> for a one-character separator: never the empty array.\<close>

fun split :: "jschar \<Rightarrow> jsstring \<Rightarrow> jsstring list" where
  "split sep [] = [[]]"
| "split sep (c # cs) =
     (if c = sep then [] # split sep cs
      else (case split sep cs of
              [] \<Rightarrow> [[c]]
            | p # ps \<Rightarrow> (c # p) # ps))"

text \<open>\<^verbatim>\<open>xs[i]\<close>: reading past the end of an array gives \<^verbatim>\<open>undefined\<close>, here \<open>None\<close>.\<close>

definition at_index :: "'a list \<Rightarrow> nat \<Rightarrow> 'a option" where
  "at_index xs i = (if i < length xs then Some (xs ! i) else None)"

text \<open>\<^verbatim>\<open>s.startsWith(p)\<close>.\<close>

definition startsWith :: "jsstring \<Rightarrow> jsstring \<Rightarrow> bool" where
  "startsWith s p \<longleftrightarrow> take (length p) s = p"

text \<open>
  The class \<^verbatim>\<open>\s\<close> of ECMAScript: the WhiteSpace and LineTerminator code points
  (tab, LF, VT, FF, CR, space, NBSP, U+1680, U+2000 to U+200A, U+2028, U+2029, U+202F,
  U+205F, U+3000 and U+FEFF).
\<close>

definition isWhiteSpace :: "jschar \<Rightarrow> bool" where
  "isWhiteSpace c \<longleftrightarrow>
     c = 0x09 \<or> c = 0x0A \<or> c = 0x0B \<or> c = 0x0C \<or> c = 0x0D \<or> c = 0x20 \<or> c = 0xA0 \<or>
     c = 0x1680 \<or> (0x2000 \<le> c \<and> c \<le> 0x200A) \<or> c = 0x2028 \<or> c = 0x2029 \<or>
     c = 0x202F \<or> c = 0x205F \<or> c = 0x3000 \<or> c = 0xFEFF"

text \<open>The class \<^verbatim>\<open>[\(\)]\<close>.\<close>

definition isParen :: "jschar \<Rightarrow> bool" where
  "isParen c \<longleftrightarrow> c = chr CHR ''('' \<or> c = chr CHR '')''"

text \<open>
  \<^verbatim>\<open>s.replace(/[\(\)]/g, '')\<close>: the matcher scans from the left; where the class matches,
  the code unit is replaced by the empty string, otherwise it is copied.
\<close>

fun replace_parens :: "jsstring \<Rightarrow> jsstring" where
  "replace_parens [] = []"
| "replace_parens (c # cs) =
     (if isParen c then replace_parens cs else c # replace_parens cs)"

text \<open>
  \<^verbatim>\<open>s.replace(/\s+/g, '_')\<close>: where \<^verbatim>\<open>\s\<close> matches, the greedy \<^verbatim>\<open>+\<close> takes every
  following white space too, one underscore is written, and the scan goes on after the
  match.
\<close>

function replace_ws :: "jsstring \<Rightarrow> jsstring" where
  "replace_ws [] = []"
| "replace_ws (c # cs) =
     (if isWhiteSpace c then chr CHR ''_'' # replace_ws (dropWhile isWhiteSpace cs)
      else c # replace_ws cs)"
  by pat_completeness auto
termination
  by (relation "measure length") (auto simp: length_dropWhile_le less_Suc_eq_le)

section \<open>Data model (types.ts)\<close>

text \<open>The browser's \<^verbatim>\<open>File\<close>: only its declared media type is read by the program.\<close>

record File =
  type :: jsstring

record OriginalImage =
  file' :: File
  dataUrl :: jsstring

record GeneratedImage =
  expression :: jsstring
  base64 :: jsstring

section \<open>Component state of App\<close>

record App =
  originalImage :: "OriginalImage option"
  generatedImages :: "GeneratedImage list"
  isLoading :: bool
  error :: "jsstring option"
  progress :: int

definition initialApp :: App where
  "initialApp =
     \<lparr>originalImage = None, generatedImages = [], isLoading = False, error = None,
      progress = 0\<rparr>"

definition handleImageUpload :: "OriginalImage \<Rightarrow> App \<Rightarrow> App" where
  "handleImageUpload img s =
     s\<lparr>originalImage := Some img, generatedImages := [], error := None, progress := 0\<rparr>"

definition handleReset :: "App \<Rightarrow> App" where
  "handleReset s =
     s\<lparr>originalImage := None, generatedImages := [], error := None, progress := 0\<rparr>"

section \<open>Image ingestion (ImageUploader.handleFileChange)\<close>

text \<open>
  \<^verbatim>\<open>event.target.files?.[0]\<close> is the first selected file, or \<^verbatim>\<open>undefined\<close> when the list
  is null or empty. The handler starts a read only for a file whose type starts with
  \<^verbatim>\<open>image/\<close>; the result is the file whose read was started, if any.
\<close>

definition handleFileChange :: "File list option \<Rightarrow> File option" where
  "handleFileChange files =
     (case (case files of None \<Rightarrow> None | Some fs \<Rightarrow> at_index fs 0) of
        None \<Rightarrow> None
      | Some f \<Rightarrow> if startsWith (type f) (js ''image/'') then Some f else None)"

text \<open>
  \<^verbatim>\<open>reader.onloadend\<close>: the read of the accepted file has ended with the data URL
  \<open>result\<close>; the image is handed to \<open>handleImageUpload\<close>.
\<close>

definition onloadend :: "File \<Rightarrow> jsstring \<Rightarrow> App \<Rightarrow> App" where
  "onloadend f result s = handleImageUpload \<lparr>file' = f, dataUrl = result\<rparr> s"

text \<open>A whole file selection: the handler, then the end of the read it started.\<close>

definition ingest :: "(File \<Rightarrow> jsstring) \<Rightarrow> File list option \<Rightarrow> App \<Rightarrow> App" where
  "ingest readAsDataURL files s =
     (case handleFileChange files of
        None \<Rightarrow> s
      | Some f \<Rightarrow> onloadend f (readAsDataURL f) s)"

section \<open>Batch generation (handleGenerateExpressions)\<close>

text \<open>
  \<open>generateExpression\<close> of services/geminiService is an asynchronous call to a remote
  service: a parameter here. Every call returns a promise, which settles by resolving
  with a base64 payload or by rejecting with a reason. The handler types the reason as
  \<^verbatim>\<open>any\<close> and reads its \<^verbatim>\<open>message\<close>: the reason is \<^verbatim>\<open>undefined\<close> or \<^verbatim>\<open>null\<close> (\<open>Nullish\<close>,
  where reading a property throws a TypeError), or any other value, with its message
  (\<open>None\<close> when it has none). The service may answer each call differently, so it also
  sees the number of the call.
\<close>

datatype reason = Nullish | Thrown "jsstring option"

datatype outcome = Resolved jsstring | Rejected reason

record Request =
  base64Data :: "jsstring option"
  mimeType :: jsstring
  label :: jsstring

type_synonym service = "nat \<Rightarrow> Request \<Rightarrow> outcome"

text \<open>The promise \<^verbatim>\<open>generateExpression(...).then(...)\<close> of one catalog entry.\<close>

datatype promise = Pending | Fulfilled GeneratedImage | RejectedP reason

text \<open>
  Where the handler stands: it returned at once (no image), it waits at
  \<^verbatim>\<open>await Promise.all(promises)\<close>, it went through the \<^verbatim>\<open>try\<close> block, or it entered
  \<^verbatim>\<open>catch\<close>.
\<close>

datatype join = Returned | Awaiting | Joined | Failed

text \<open>
  One invocation of the handler: the component state, the calls it issued, its local
  variables \<open>totalExpressions\<close> and \<open>completedCount\<close>, its promises, and the values it has
  passed to \<open>setProgress\<close>, oldest first.
\<close>

record Run =
  app :: App
  requests :: "Request list"
  totalExpressions :: nat
  completedCount :: nat
  promises :: "promise list"
  joined :: join
  emitted :: "int list"

subsection \<open>Numbers\<close>

text \<open>
  A JavaScript number is an IEEE 754 double, and \<^verbatim>\<open>/\<close> and \<^verbatim>\<open>*\<close> round their exact result
  to the nearest double, a tie to the even mantissa. A finite double is a rational, and
  \<open>to_double\<close> rounds a rational to 53 significant bits: \<open>floor_log2\<close> finds the binary
  exponent, the value is scaled to a mantissa between \<open>2 ^ 52\<close> and \<open>2 ^ 53\<close>, rounded and
  scaled back. Overflow and subnormal numbers are left out: the quotient of a count by a
  total that an array length can be, and its product with 100, are far from both.
\<close>

function bit_length :: "int \<Rightarrow> nat" where
  "bit_length n = (if n \<le> 0 then 0 else Suc (bit_length (n div 2)))"
  by pat_completeness auto
termination
  by (relation "measure nat") auto

definition scale2 :: "rat \<Rightarrow> int \<Rightarrow> rat" where
  "scale2 x e = (if 0 \<le> e then x * 2 ^ nat e else x / 2 ^ nat (- e))"

definition floor_log2 :: "rat \<Rightarrow> int" where
  "floor_log2 x =
     (let (p, q) = quotient_of x;
          d = int (bit_length p) - int (bit_length q)
      in if scale2 1 d \<le> x then d else d - 1)"

definition round_half_even :: "rat \<Rightarrow> int" where
  "round_half_even y =
     (let m = \<lfloor>y\<rfloor>; f = y - of_int m
      in if f < 1 / 2 then m
         else if 1 / 2 < f then m + 1
         else if even m then m else m + 1)"

definition to_double :: "rat \<Rightarrow> rat" where
  "to_double x =
     (if x = 0 then 0
      else let a = \<bar>x\<bar>; e = floor_log2 a - 52; m = round_half_even (scale2 a (- e))
           in sgn x * scale2 (of_int m) e)"

text \<open>
  \<^verbatim>\<open>Math.round\<close>: the nearest integer, a half rounded up; it is exact on its argument.
\<close>

definition Math_round :: "rat \<Rightarrow> int" where
  "Math_round x = \<lfloor>x + 1 / 2\<rfloor>"

text \<open>
  \<^verbatim>\<open>Math.round((completedCount / totalExpressions) * 100)\<close>: the count and the total are
  integers, hence doubles; the quotient is rounded to a double, and so is its product with
  100. (With a total of 200 the 29th call gives 14, where the exact quotient gives 15.)
\<close>

definition percent :: "nat \<Rightarrow> nat \<Rightarrow> int" where
  "percent completed n =
     Math_round (to_double (to_double (of_nat completed / of_nat n) * 100))"

definition PNG_PREFIX :: jsstring where
  "PNG_PREFIX = js ''data:image/png;base64,''"

definition UNKNOWN_ERROR :: jsstring where
  "UNKNOWN_ERROR = js ''An unknown error occurred during image generation.''"

text \<open>\<^verbatim>\<open>err.message || '...'\<close>: a missing or empty message gives the fixed text.\<close>

definition error_text :: "jsstring option \<Rightarrow> jsstring" where
  "error_text message =
     (case message of
        None \<Rightarrow> UNKNOWN_ERROR
      | Some m \<Rightarrow> if m = [] then UNKNOWN_ERROR else m)"

definition is_fulfilled :: "promise \<Rightarrow> bool" where
  "is_fulfilled p = (case p of Fulfilled _ \<Rightarrow> True | _ \<Rightarrow> False)"

definition value_of :: "promise \<Rightarrow> GeneratedImage" where
  "value_of p =
     (case p of Fulfilled g \<Rightarrow> g | _ \<Rightarrow> \<lparr>expression = [], base64 = []\<rparr>)"

text \<open>
  \<^verbatim>\<open>Promise.all\<close> fulfils once every promise is fulfilled, with the values in the order of
  the promises; the handler then runs \<^verbatim>\<open>setGeneratedImages(results)\<close> and, in
  \<^verbatim>\<open>finally\<close>, \<^verbatim>\<open>setIsLoading(false)\<close>.
\<close>

definition all_fulfilled :: "Run \<Rightarrow> Run" where
  "all_fulfilled r =
     (if joined r = Awaiting \<and> list_all is_fulfilled (promises r)
      then r\<lparr>app := (app r)\<lparr>generatedImages := map value_of (promises r), isLoading := False\<rparr>,
             joined := Joined\<rparr>
      else r)"

text \<open>
  \<^verbatim>\<open>Promise.all\<close> rejects with the reason of the first promise that rejects, and the
  handler enters \<^verbatim>\<open>catch\<close>. With a reason that is a value it runs \<^verbatim>\<open>setError\<close> there; with
  \<^verbatim>\<open>undefined\<close> or \<^verbatim>\<open>null\<close> the read of \<^verbatim>\<open>err.message\<close> throws, \<^verbatim>\<open>setError\<close> is not
  reached and the error state stays as it is. In both cases \<^verbatim>\<open>finally\<close> runs
  \<^verbatim>\<open>setIsLoading(false)\<close>. A later rejection finds the join settled and changes nothing.
\<close>

definition first_rejected :: "reason \<Rightarrow> Run \<Rightarrow> Run" where
  "first_rejected err r =
     (if joined r = Awaiting
      then (case err of
              Nullish \<Rightarrow>
                r\<lparr>app := (app r)\<lparr>isLoading := False\<rparr>, joined := Failed\<rparr>
            | Thrown message \<Rightarrow>
                r\<lparr>app := (app r)\<lparr>error := Some (error_text message), isLoading := False\<rparr>,
                  joined := Failed\<rparr>)
      else r)"

text \<open>The error state after the \<^verbatim>\<open>catch\<close> block, from the state before it.\<close>

definition error_after :: "reason \<Rightarrow> jsstring option \<Rightarrow> jsstring option" where
  "error_after err before =
     (case err of Nullish \<Rightarrow> before | Thrown message \<Rightarrow> Some (error_text message))"

text \<open>
  The start of the handler with an image: the four state resets, then one call per
  catalog entry, all with the same image data and media type.
\<close>

definition reset_batch :: "App \<Rightarrow> App" where
  "reset_batch s = s\<lparr>isLoading := True, error := None, generatedImages := [], progress := 0\<rparr>"

definition issue :: "jsstring list \<Rightarrow> OriginalImage \<Rightarrow> Request list" where
  "issue catalog img =
     map (\<lambda>e. \<lparr>base64Data = at_index (split (chr CHR '','') (dataUrl img)) 1,
               mimeType = type (file' img), label = e\<rparr>) catalog"

definition begin_run :: "jsstring list \<Rightarrow> OriginalImage \<Rightarrow> App \<Rightarrow> Run" where
  "begin_run catalog img s =
     all_fulfilled
       \<lparr>app = reset_batch s, requests = issue catalog img,
        totalExpressions = length catalog, completedCount = 0,
        promises = replicate (length catalog) Pending, joined = Awaiting, emitted = [0]\<rparr>"

text \<open>
  Call \<open>i\<close> settles. A promise settles once: an event for a call that is not pending, or
  that was never issued, changes nothing. On success the \<^verbatim>\<open>then\<close> callback counts the
  call, sets the progress and fulfils its promise with the labelled image; on failure
  the callback is skipped and the rejection goes to the join.

  The continuation of the \<^verbatim>\<open>await\<close> runs a few microtasks after the settling that
  releases it, and the \<^verbatim>\<open>then\<close> callback of another call may run in between. The
  callbacks write \<open>completedCount\<close> and \<open>progress\<close> only, the continuation writes
  \<open>generatedImages\<close>, \<open>error\<close> and \<open>isLoading\<close> only, so both orders give the same
  state, and the continuation is run here with the settling that releases it.
\<close>

definition settle :: "service \<Rightarrow> nat \<Rightarrow> Run \<Rightarrow> Run" where
  "settle svc i r =
     (if i < length (promises r) \<and> promises r ! i = Pending then
        (case svc i (requests r ! i) of
           Resolved newBase64 \<Rightarrow>
             (let c = completedCount r + 1;
                  p = percent c (totalExpressions r)
              in all_fulfilled
                   (r\<lparr>app := (app r)\<lparr>progress := p\<rparr>,
                      completedCount := c,
                      promises := (promises r)
                        [i := Fulfilled \<lparr>expression = label (requests r ! i),
                                          base64 = PNG_PREFIX @ newBase64\<rparr>],
                      emitted := emitted r @ [p]\<rparr>))
         | Rejected err \<Rightarrow>
             first_rejected err (r\<lparr>promises := (promises r)[i := RejectedP err]\<rparr>))
      else r)"

text \<open>The handler with no image: \<^verbatim>\<open>if (!originalImage) return;\<close>.\<close>

definition no_run :: "App \<Rightarrow> Run" where
  "no_run s =
     \<lparr>app = s, requests = [], totalExpressions = 0, completedCount = 0, promises = [],
      joined = Returned, emitted = []\<rparr>"

text \<open>
  The calls settle in the order \<open>order\<close> (call numbers, the first to settle first).
  Calls that are not in \<open>order\<close> have not settled.
\<close>

definition settle_all :: "service \<Rightarrow> nat list \<Rightarrow> Run \<Rightarrow> Run" where
  "settle_all svc order r = foldl (\<lambda>r i. settle svc i r) r order"

text \<open>The handler, followed by the settling of its calls.\<close>

definition handleGenerateExpressions ::
  "jsstring list \<Rightarrow> service \<Rightarrow> nat list \<Rightarrow> App \<Rightarrow> Run" where
  "handleGenerateExpressions catalog svc order s =
     (case originalImage s of
        None \<Rightarrow> no_run s
      | Some img \<Rightarrow> settle_all svc order (begin_run catalog img s))"

text \<open>What call \<open>i\<close> of a batch settles with, and whether it is a success.\<close>

definition call_outcome :: "service \<Rightarrow> jsstring list \<Rightarrow> OriginalImage \<Rightarrow> nat \<Rightarrow> outcome" where
  "call_outcome svc catalog img i = svc i (issue catalog img ! i)"

definition resolved :: "outcome \<Rightarrow> bool" where
  "resolved out = (case out of Resolved _ \<Rightarrow> True | Rejected _ \<Rightarrow> False)"

text \<open>The promise of call \<open>i\<close> once the call has settled.\<close>

definition settled_promise :: "service \<Rightarrow> Request list \<Rightarrow> nat \<Rightarrow> promise" where
  "settled_promise svc reqs i =
     (case svc i (reqs ! i) of
        Resolved newBase64 \<Rightarrow>
          Fulfilled \<lparr>expression = label (reqs ! i), base64 = PNG_PREFIX @ newBase64\<rparr>
      | Rejected err \<Rightarrow> RejectedP err)"

section \<open>Archive export (handleDownloadAll)\<close>

text \<open>The name of an archive entry, from the label of its image.\<close>

definition fileName :: "GeneratedImage \<Rightarrow> jsstring" where
  "fileName img = replace_ws (replace_parens (expression img)) @ js ''.png''"

text \<open>
  One \<^verbatim>\<open>zip.file(name, data, {base64: true})\<close> call, as the program makes it: the name,
  the text (\<open>None\<close> for \<^verbatim>\<open>undefined\<close>) and the flag.
\<close>

record ZipObject =
  name :: jsstring
  data :: "jsstring option"
  opt_base64 :: bool

text \<open>
  Modelled from the spec: the archive library (JSZip, declared \<^verbatim>\<open>any\<close>) is not part of
  the sources. It keeps its entries by name, so that adding a name again overwrites the
  entry of that name.
\<close>

fun zip_file :: "ZipObject list \<Rightarrow> ZipObject \<Rightarrow> ZipObject list" where
  "zip_file [] obj = [obj]"
| "zip_file (e # es) obj = (if name e = name obj then obj # es else e # zip_file es obj)"

text \<open>
  Modelled from the spec: the bytes the library stores for an entry. With the base64 flag
  it stores the decoding of the text, otherwise the encoded text; both codecs are the
  library's and are parameters.
\<close>

definition stored_bytes ::
  "(jsstring \<Rightarrow> 8 word list) \<Rightarrow> (jsstring \<Rightarrow> 8 word list) \<Rightarrow> ZipObject \<Rightarrow> 8 word list" where
  "stored_bytes decode encode obj =
     (let text = (case data obj of None \<Rightarrow> [] | Some t \<Rightarrow> t)
      in if opt_base64 obj then decode text else encode text)"

text \<open>
  The body of the \<^verbatim>\<open>forEach\<close> callback: the arguments of the \<^verbatim>\<open>zip.file\<close> call for one
  image, and the call.
\<close>

definition zip_entry :: "GeneratedImage \<Rightarrow> ZipObject" where
  "zip_entry img =
     \<lparr>name = fileName img,
      data = at_index (split (chr CHR '','') (base64 img)) 1,
      opt_base64 = True\<rparr>"

definition add_image :: "ZipObject list \<Rightarrow> GeneratedImage \<Rightarrow> ZipObject list" where
  "add_image z img = zip_file z (zip_entry img)"

record Download =
  content :: "ZipObject list"
  download :: jsstring

text \<open>
  The handler returns at once on an empty list (\<open>None\<close>: no archive, no link);
  otherwise it adds one entry per image, in order, and offers the archive for download.
\<close>

definition handleDownloadAll :: "App \<Rightarrow> Download option" where
  "handleDownloadAll s =
     (if length (generatedImages s) = 0 then None
      else Some \<lparr>content = foldl add_image [] (generatedImages s),
                 download = js ''character_expressions.zip''\<rparr>)"

text \<open>The render condition of the download button.\<close>

definition download_offered :: "App \<Rightarrow> bool" where
  "download_offered s \<longleftrightarrow> length (generatedImages s) > 0 \<and> \<not> isLoading s"

section \<open>The file name in the words of the specification\<close>

text \<open>
  The specification derives the name in three steps: remove the parenthesis characters,
  replace each run of white space by one underscore, append \<^verbatim>\<open>.png\<close>. The definitions
  below follow these words: the label is cut into its maximal runs of white space and of
  other code units, and each run of white space becomes one underscore.
\<close>

definition spec_remove_parens :: "jsstring \<Rightarrow> jsstring" where
  "spec_remove_parens s = filter (\<lambda>c. \<not> isParen c) s"

function runs :: "jsstring \<Rightarrow> jsstring list" where
  "runs [] = []"
| "runs (c # cs) =
     (c # takeWhile (\<lambda>d. isWhiteSpace d = isWhiteSpace c) cs)
       # runs (dropWhile (\<lambda>d. isWhiteSpace d = isWhiteSpace c) cs)"
  by pat_completeness auto
termination
  by (relation "measure length") (auto simp: length_dropWhile_le less_Suc_eq_le)

definition spec_underscore :: "jsstring \<Rightarrow> jsstring" where
  "spec_underscore run =
     (case run of [] \<Rightarrow> [] | d # _ \<Rightarrow> if isWhiteSpace d then js ''_'' else run)"

definition spec_fileName :: "jsstring \<Rightarrow> jsstring" where
  "spec_fileName l = concat (map spec_underscore (runs (spec_remove_parens l))) @ js ''.png''"

section \<open>Sample inputs\<close>

text \<open>
  A catalog of eight labels, an uploaded JPEG, and services: one that answers every call,
  one whose sixth call fails with a message, one whose third call fails with an empty
  message, one whose fifth call rejects with \<^verbatim>\<open>undefined\<close>.
\<close>

definition demo_catalog :: "jsstring list" where
  "demo_catalog =
     map js [''Happy'', ''Sad'', ''Angry'', ''Surprised (Gasp)'', ''Disgusted'', ''Fearful'',
       ''Neutral'', ''Laughing'']"

definition demo_image :: OriginalImage where
  "demo_image =
     \<lparr>file' = \<lparr>type = js ''image/jpeg''\<rparr>, dataUrl = js ''data:image/jpeg;base64,QUJD''\<rparr>"

definition demo_app :: App where
  "demo_app = handleImageUpload demo_image initialApp"

definition demo_payloads :: "jsstring list" where
  "demo_payloads =
     map js [''QQ=='', ''Qg=='', ''Qw=='', ''RA=='', ''RQ=='', ''Rg=='', ''Rw=='', ''SA=='']"

definition demo_service :: service where
  "demo_service i req =
     (case at_index demo_payloads i of
        Some b \<Rightarrow> Resolved b
      | None \<Rightarrow> Rejected (Thrown None))"

definition failing_service :: service where
  "failing_service i req =
     (if i = 5 then Rejected (Thrown (Some (js ''quota exceeded'')))
      else demo_service i req)"

definition silent_service :: service where
  "silent_service i req =
     (if i = 2 then Rejected (Thrown (Some [])) else demo_service i req)"

definition nullish_service :: service where
  "nullish_service i req = (if i = 4 then Rejected Nullish else demo_service i req)"

text \<open>
  A catalog with two labels that differ only by parentheses, and the state after a batch
  on it in which every call succeeded.
\<close>

definition colliding_catalog :: "jsstring list" where
  "colliding_catalog =
     map js [''Happy'', ''Sad'', ''(Sad)'', ''Surprised (Gasp)'', ''Disgusted'', ''Fearful'',
       ''Neutral'', ''Laughing'']"

definition colliding_app :: App where
  "colliding_app =
     app (handleGenerateExpressions colliding_catalog demo_service [0, 1, 2, 3, 4, 5, 6, 7]
       demo_app)"

text \<open>The state after a batch on the sample catalog in which every call succeeded.\<close>

definition finished_app :: App where
  "finished_app =
     app (handleGenerateExpressions demo_catalog demo_service [3, 1, 7, 0, 2, 6, 5, 4] demo_app)"

text \<open>
  Two selected files, and a reader that answers with a data URL of the file's type.
\<close>

definition text_file :: File where
  "text_file = \<lparr>type = js ''text/plain''\<rparr>"

definition png_file :: File where
  "png_file = \<lparr>type = js ''image/png''\<rparr>"

definition sample_reader :: "File \<Rightarrow> jsstring" where
  "sample_reader f = js ''data:'' @ type f @ js '';base64,QUJD''"

section \<open>Settling of the calls\<close>

lemma all_fulfilled_keeps [simp]:
  "requests (all_fulfilled r) = requests r"
  "totalExpressions (all_fulfilled r) = totalExpressions r"
  "completedCount (all_fulfilled r) = completedCount r"
  "promises (all_fulfilled r) = promises r"
  "emitted (all_fulfilled r) = emitted r"
  "progress (app (all_fulfilled r)) = progress (app r)"
  "error (app (all_fulfilled r)) = error (app r)"
  "originalImage (app (all_fulfilled r)) = originalImage (app r)"
  by (simp_all add: all_fulfilled_def)

lemma first_rejected_keeps [simp]:
  "requests (first_rejected e r) = requests r"
  "totalExpressions (first_rejected e r) = totalExpressions r"
  "completedCount (first_rejected e r) = completedCount r"
  "promises (first_rejected e r) = promises r"
  "emitted (first_rejected e r) = emitted r"
  "progress (app (first_rejected e r)) = progress (app r)"
  "generatedImages (app (first_rejected e r)) = generatedImages (app r)"
  "originalImage (app (first_rejected e r)) = originalImage (app r)"
  by (simp_all add: first_rejected_def split: reason.splits)

lemma settle_static [simp]:
  "requests (settle svc i r) = requests r"
  "totalExpressions (settle svc i r) = totalExpressions r"
  "length (promises (settle svc i r)) = length (promises r)"
  by (simp_all add: settle_def Let_def split: outcome.splits)

lemma settle_promises:
  "i < length (promises r) \<Longrightarrow> promises r ! i = Pending \<Longrightarrow>
   promises (settle svc i r) = (promises r)[i := settled_promise svc (requests r) i]"
  by (simp add: settle_def settled_promise_def Let_def split: outcome.splits)

lemma settle_count:
  "i < length (promises r) \<Longrightarrow> promises r ! i = Pending \<Longrightarrow>
   completedCount (settle svc i r) =
     (if resolved (svc i (requests r ! i)) then completedCount r + 1 else completedCount r)"
  by (simp add: settle_def resolved_def Let_def split: outcome.splits)

lemma settle_emitted:
  "i < length (promises r) \<Longrightarrow> promises r ! i = Pending \<Longrightarrow>
   emitted (settle svc i r) =
     (if resolved (svc i (requests r ! i))
      then emitted r @ [percent (completedCount r + 1) (totalExpressions r)]
      else emitted r)"
  by (simp add: settle_def resolved_def Let_def split: outcome.splits)

lemma settle_progress:
  "i < length (promises r) \<Longrightarrow> promises r ! i = Pending \<Longrightarrow>
   progress (app (settle svc i r)) =
     (if resolved (svc i (requests r ! i))
      then percent (completedCount r + 1) (totalExpressions r)
      else progress (app r))"
  by (simp add: settle_def resolved_def Let_def split: outcome.splits)

lemma settle_all_Nil [simp]: "settle_all svc [] r = r"
  by (simp add: settle_all_def)

lemma settle_all_Cons [simp]: "settle_all svc (i # order) r = settle_all svc order (settle svc i r)"
  by (simp add: settle_all_def)

lemma settle_all_snoc [simp]: "settle_all svc (order @ [i]) r = settle svc i (settle_all svc order r)"
  by (simp add: settle_all_def)

lemma settle_all_append: "settle_all svc (xs @ ys) r = settle_all svc ys (settle_all svc xs r)"
  by (simp add: settle_all_def)

lemma settle_all_static [simp]:
  "requests (settle_all svc order r) = requests r"
  "totalExpressions (settle_all svc order r) = totalExpressions r"
  "length (promises (settle_all svc order r)) = length (promises r)"
  by (induction order arbitrary: r) simp_all

lemma settle_all_promises:
  assumes "distinct order"
    and "\<forall>i\<in>set order. i < length (promises r) \<and> promises r ! i = Pending"
    and "k < length (promises r)"
  shows "promises (settle_all svc order r) ! k =
           (if k \<in> set order then settled_promise svc (requests r) k else promises r ! k)"
  using assms
proof (induction order arbitrary: r)
  case Nil
  then show ?case by simp
next
  case (Cons i order)
  let ?r = "settle svc i r"
  have p: "promises ?r = (promises r)[i := settled_promise svc (requests r) i]"
    using Cons.prems by (simp add: settle_promises)
  have q: "\<forall>j\<in>set order. j < length (promises ?r) \<and> promises ?r ! j = Pending"
    using Cons.prems by (auto simp: p nth_list_update)
  have d: "distinct order" and k: "k < length (promises ?r)"
    using Cons.prems by simp_all
  have "promises (settle_all svc order ?r) ! k =
           (if k \<in> set order then settled_promise svc (requests ?r) k else promises ?r ! k)"
    by (rule Cons.IH [OF d q k])
  then show ?case using Cons.prems by (auto simp: p nth_list_update)
qed

lemma percent_table:
  "map (\<lambda>k. percent k 8) [0..<9] = [0, 13, 25, 38, 50, 63, 75, 88, 100]"
  by code_simp

lemma exact_table:
  "map (\<lambda>k. (25 * int k + 1) div 2) [0..<9] = [0, 13, 25, 38, 50, 63, 75, 88, 100]"
  by code_simp

lemma percent_8:
  assumes "k \<le> 8"
  shows "percent k 8 = (25 * int k + 1) div 2"
proof -
  have k: "k < 9 - 0" using assms by simp
  have "percent k 8 = map (\<lambda>k. percent k 8) [0..<9] ! k"
    using nth_map_upt [OF k, of "\<lambda>k. percent k 8"] by simp
  also have "\<dots> = map (\<lambda>k. (25 * int k + 1) div 2) [0..<9] ! k"
    by (simp only: percent_table exact_table)
  also have "\<dots> = (25 * int k + 1) div 2"
    using nth_map_upt [OF k, of "\<lambda>k. (25 * int k + 1) div 2"] by simp
  finally show ?thesis .
qed

lemma round_8: "round (100 * of_nat k / 8 :: rat) = (25 * int k + 1) div 2"
proof -
  have "(100 * of_nat k / 8 :: rat) + 1 / 2 = of_int (25 * int k + 1) / of_int 2"
    by (simp add: field_simps)
  then have "round (100 * of_nat k / 8 :: rat) = \<lfloor>of_int (25 * int k + 1) / of_int 2 :: rat\<rfloor>"
    unfolding round_def by presburger
  then show ?thesis
    by (simp only: floor_divide_of_int_eq)
qed

lemma percent_round: "k \<le> 8 \<Longrightarrow> percent k 8 = round (100 * of_nat k / 8 :: rat)"
  by (simp only: percent_8 round_8)

lemma percent_8_mono: "j < k \<Longrightarrow> k \<le> 8 \<Longrightarrow> percent j 8 < percent k 8"
  by (simp add: percent_8)

lemma percent_8_100: "k \<le> 8 \<Longrightarrow> percent k 8 = 100 \<longleftrightarrow> k = 8"
  by (simp add: percent_8) linarith

lemma percent_8_pos: "0 < k \<Longrightarrow> k \<le> 8 \<Longrightarrow> 0 < percent k 8"
  by (simp add: percent_8)

lemma floor_half: "\<lfloor>1 / 2 :: rat\<rfloor> = 0"
  by (simp add: floor_eq_iff)

lemma percent_0: "percent 0 n = 0"
  by (simp add: percent_def to_double_def Math_round_def floor_half)

lemma not_all_fulfilled_replicate: "0 < n \<Longrightarrow> \<not> list_all is_fulfilled (replicate n Pending)"
  by (cases n) (simp_all add: is_fulfilled_def)

lemma begin_run_fields [simp]:
  "requests (begin_run catalog img s) = issue catalog img"
  "totalExpressions (begin_run catalog img s) = length catalog"
  "completedCount (begin_run catalog img s) = 0"
  "promises (begin_run catalog img s) = replicate (length catalog) Pending"
  "emitted (begin_run catalog img s) = [0]"
  "progress (app (begin_run catalog img s)) = 0"
  "error (app (begin_run catalog img s)) = None"
  "originalImage (app (begin_run catalog img s)) = originalImage s"
  by (simp_all add: begin_run_def reset_batch_def)

lemma begin_run_awaiting:
  assumes "catalog \<noteq> []"
  shows "joined (begin_run catalog img s) = Awaiting"
    and "generatedImages (app (begin_run catalog img s)) = []"
    and "isLoading (app (begin_run catalog img s))"
    and "app (begin_run catalog img s) = reset_batch s"
  using assms not_all_fulfilled_replicate [of "length catalog"]
  by (simp_all add: begin_run_def all_fulfilled_def reset_batch_def)

lemma length_issue [simp]: "length (issue catalog img) = length catalog"
  by (simp add: issue_def)

lemma label_issue: "i < length catalog \<Longrightarrow> label (issue catalog img ! i) = catalog ! i"
  by (simp add: issue_def)

text \<open>A settling order of a batch: every call at most once, only calls that were issued.\<close>

lemma run_promise:
  assumes "distinct order" "set order \<subseteq> {0..<length catalog}" "k < length catalog"
  shows "promises (settle_all svc order (begin_run catalog img s)) ! k =
           (if k \<in> set order then settled_promise svc (issue catalog img) k else Pending)"
proof -
  let ?b = "begin_run catalog img s"
  have "\<forall>i\<in>set order. i < length (promises ?b) \<and> promises ?b ! i = Pending"
    using assms(2) by auto
  moreover have "k < length (promises ?b)" using assms(3) by simp
  ultimately show ?thesis
    using settle_all_promises [OF assms(1), of ?b k svc] assms(3) by simp
qed

lemma run_count:
  assumes "distinct order" "set order \<subseteq> {0..<length catalog}"
  shows "completedCount (settle_all svc order (begin_run catalog img s)) =
           length (filter (\<lambda>i. resolved (call_outcome svc catalog img i)) order)"
  using assms
proof (induction order rule: rev_induct)
  case Nil
  then show ?case by simp
next
  case (snoc i order)
  let ?r = "settle_all svc order (begin_run catalog img s)"
  have v: "distinct order" "set order \<subseteq> {0..<length catalog}" "i < length catalog" "i \<notin> set order"
    using snoc.prems by auto
  have "promises ?r ! i = Pending" using run_promise [OF v(1) v(2) v(3)] v(4) by simp
  then show ?case
    using v snoc.IH by (simp add: settle_count call_outcome_def)
qed

lemma run_emitted:
  assumes "distinct order" "set order \<subseteq> {0..<length catalog}"
  shows "emitted (settle_all svc order (begin_run catalog img s)) =
           0 # map (\<lambda>k. percent k (length catalog))
                 [1..<Suc (completedCount (settle_all svc order (begin_run catalog img s)))]"
  using assms
proof (induction order rule: rev_induct)
  case Nil
  then show ?case by simp
next
  case (snoc i order)
  let ?r = "settle_all svc order (begin_run catalog img s)"
  have v: "distinct order" "set order \<subseteq> {0..<length catalog}" "i < length catalog" "i \<notin> set order"
    using snoc.prems by auto
  have "promises ?r ! i = Pending" using run_promise [OF v(1) v(2) v(3)] v(4) by simp
  then show ?case
    using v snoc.IH by (simp add: settle_count settle_emitted)
qed

lemma run_progress:
  assumes "distinct order" "set order \<subseteq> {0..<length catalog}"
  shows "progress (app (settle_all svc order (begin_run catalog img s))) =
           percent (completedCount (settle_all svc order (begin_run catalog img s))) (length catalog)"
  using assms
proof (induction order rule: rev_induct)
  case Nil
  then show ?case by (simp add: percent_0)
next
  case (snoc i order)
  let ?r = "settle_all svc order (begin_run catalog img s)"
  have v: "distinct order" "set order \<subseteq> {0..<length catalog}" "i < length catalog" "i \<notin> set order"
    using snoc.prems by auto
  have "promises ?r ! i = Pending" using run_promise [OF v(1) v(2) v(3)] v(4) by simp
  then show ?case
    using v snoc.IH by (simp add: settle_count settle_progress)
qed


lemma all_fulfilled_join:
  assumes "joined r = Awaiting" "list_all is_fulfilled (promises r)"
  shows "joined (all_fulfilled r) = Joined"
    and "generatedImages (app (all_fulfilled r)) = map value_of (promises r)"
    and "\<not> isLoading (app (all_fulfilled r))"
  using assms by (simp_all add: all_fulfilled_def)

lemma all_fulfilled_wait:
  "\<not> list_all is_fulfilled (promises r) \<Longrightarrow> all_fulfilled r = r"
  by (simp add: all_fulfilled_def)

lemma settle_resolved_join:
  assumes "i < length (promises r)" "promises r ! i = Pending"
    and "resolved (svc i (requests r ! i))" "joined r = Awaiting"
  shows "error (app (settle svc i r)) = error (app r)"
    and "list_all is_fulfilled (promises (settle svc i r)) \<Longrightarrow>
           joined (settle svc i r) = Joined \<and>
           generatedImages (app (settle svc i r)) = map value_of (promises (settle svc i r)) \<and>
           \<not> isLoading (app (settle svc i r))"
    and "\<not> list_all is_fulfilled (promises (settle svc i r)) \<Longrightarrow>
           joined (settle svc i r) = Awaiting \<and>
           generatedImages (app (settle svc i r)) = generatedImages (app r) \<and>
           isLoading (app (settle svc i r)) = isLoading (app r)"
proof -
  obtain b where b: "svc i (requests r ! i) = Resolved b"
    using assms(3) by (cases "svc i (requests r ! i)") (simp_all add: resolved_def)
  define r1 where "r1 =
    r\<lparr>app := (app r)\<lparr>progress := percent (completedCount r + 1) (totalExpressions r)\<rparr>,
      completedCount := completedCount r + 1,
      promises := (promises r)
        [i := Fulfilled \<lparr>expression = label (requests r ! i), base64 = PNG_PREFIX @ b\<rparr>],
      emitted := emitted r @ [percent (completedCount r + 1) (totalExpressions r)]\<rparr>"
  have eq: "settle svc i r = all_fulfilled r1"
    using assms(1,2) b by (simp add: settle_def Let_def r1_def)
  have r1: "joined r1 = Awaiting" "error (app r1) = error (app r)"
    "generatedImages (app r1) = generatedImages (app r)" "isLoading (app r1) = isLoading (app r)"
    using assms(4) by (simp_all add: r1_def)
  show "error (app (settle svc i r)) = error (app r)"
    by (simp add: eq r1)
  show "joined (settle svc i r) = Joined \<and>
           generatedImages (app (settle svc i r)) = map value_of (promises (settle svc i r)) \<and>
           \<not> isLoading (app (settle svc i r))"
    if "list_all is_fulfilled (promises (settle svc i r))"
  proof -
    from that have "list_all is_fulfilled (promises r1)" by (simp add: eq)
    from all_fulfilled_join [OF r1(1) this] show ?thesis by (simp add: eq)
  qed
  show "joined (settle svc i r) = Awaiting \<and>
           generatedImages (app (settle svc i r)) = generatedImages (app r) \<and>
           isLoading (app (settle svc i r)) = isLoading (app r)"
    if "\<not> list_all is_fulfilled (promises (settle svc i r))"
  proof -
    from that have "\<not> list_all is_fulfilled (promises r1)" by (simp add: eq)
    then have "all_fulfilled r1 = r1" by (rule all_fulfilled_wait)
    then show ?thesis by (simp add: eq r1)
  qed
qed

lemma settle_rejected_join:
  assumes "i < length (promises r)" "promises r ! i = Pending"
    and "svc i (requests r ! i) = Rejected e" "joined r = Awaiting"
  shows "joined (settle svc i r) = Failed"
    and "error (app (settle svc i r)) = error_after e (error (app r))"
    and "generatedImages (app (settle svc i r)) = generatedImages (app r)"
    and "\<not> isLoading (app (settle svc i r))"
  using assms
  by (simp_all add: settle_def first_rejected_def error_after_def split: reason.splits)

lemma settle_after_failure:
  assumes "joined r = Failed"
  shows "joined (settle svc i r) = Failed"
    and "error (app (settle svc i r)) = error (app r)"
    and "generatedImages (app (settle svc i r)) = generatedImages (app r)"
    and "isLoading (app (settle svc i r)) = isLoading (app r)"
  using assms
  by (simp_all add: settle_def all_fulfilled_def first_rejected_def Let_def split: outcome.splits)

lemma settle_all_after_failure:
  assumes "joined r = Failed"
  shows "joined (settle_all svc order r) = Failed \<and>
         error (app (settle_all svc order r)) = error (app r) \<and>
         generatedImages (app (settle_all svc order r)) = generatedImages (app r) \<and>
         isLoading (app (settle_all svc order r)) = isLoading (app r)"
  using assms by (induction order arbitrary: r) (simp_all add: settle_after_failure)

lemma not_fulfilled_Pending: "\<not> is_fulfilled Pending"
  by (simp add: is_fulfilled_def)

lemma settled_promise_fulfilled:
  "is_fulfilled (settled_promise svc reqs k) = resolved (svc k (reqs ! k))"
  by (simp add: settled_promise_def is_fulfilled_def resolved_def split: outcome.splits)

lemma run_all_fulfilled:
  assumes "distinct order" "set order \<subseteq> {0..<length catalog}"
    and "\<forall>i\<in>set order. resolved (call_outcome svc catalog img i)"
  shows "list_all is_fulfilled (promises (settle_all svc order (begin_run catalog img s)))
           \<longleftrightarrow> set order = {0..<length catalog}"
proof -
  let ?ps = "promises (settle_all svc order (begin_run catalog img s))"
  have len: "length ?ps = length catalog" by simp
  have nth: "\<And>k. k < length catalog \<Longrightarrow>
      is_fulfilled (?ps ! k) \<longleftrightarrow> k \<in> set order"
    using assms(3)
    by (simp add: run_promise [OF assms(1) assms(2)] settled_promise_fulfilled
        call_outcome_def not_fulfilled_Pending)
  have "list_all is_fulfilled ?ps \<longleftrightarrow> (\<forall>k<length catalog. is_fulfilled (?ps ! k))"
    using len by (simp add: list_all_length)
  also have "\<dots> \<longleftrightarrow> (\<forall>k<length catalog. k \<in> set order)"
    using nth by simp
  also have "\<dots> \<longleftrightarrow> set order = {0..<length catalog}"
    using assms(2) by auto
  finally show ?thesis .
qed

lemma run_join_resolved:
  assumes "catalog \<noteq> []" "distinct order" "set order \<subseteq> {0..<length catalog}"
    and "\<forall>i\<in>set order. resolved (call_outcome svc catalog img i)"
  shows "error (app (settle_all svc order (begin_run catalog img s))) = None \<and>
         (if set order = {0..<length catalog}
          then joined (settle_all svc order (begin_run catalog img s)) = Joined \<and>
               generatedImages (app (settle_all svc order (begin_run catalog img s))) =
                 map value_of (promises (settle_all svc order (begin_run catalog img s))) \<and>
               \<not> isLoading (app (settle_all svc order (begin_run catalog img s)))
          else joined (settle_all svc order (begin_run catalog img s)) = Awaiting \<and>
               generatedImages (app (settle_all svc order (begin_run catalog img s))) = [] \<and>
               isLoading (app (settle_all svc order (begin_run catalog img s))))"
  using assms(2-4)
proof (induction order rule: rev_induct)
  case Nil
  have "set [] \<noteq> {0..<length catalog}" using assms(1) by simp
  then show ?case using begin_run_awaiting(1-3) [OF assms(1)] by simp
next
  case (snoc i order)
  let ?r = "settle_all svc order (begin_run catalog img s)"
  let ?r' = "settle_all svc (order @ [i]) (begin_run catalog img s)"
  have v: "distinct order" "set order \<subseteq> {0..<length catalog}" "i < length catalog" "i \<notin> set order"
    and res: "\<forall>j\<in>set order. resolved (call_outcome svc catalog img j)"
    and resi: "resolved (call_outcome svc catalog img i)"
    using snoc.prems by auto
  have ne: "set order \<noteq> {0..<length catalog}" using v(3) v(4) by auto
  have ih: "error (app ?r) = None" "joined ?r = Awaiting" "generatedImages (app ?r) = []"
    "isLoading (app ?r)"
    using snoc.IH [OF v(1) v(2) res] ne by simp_all
  have pend: "i < length (promises ?r)" "promises ?r ! i = Pending"
    using run_promise [OF v(1) v(2) v(3)] v(3) v(4) by simp_all
  have resi': "resolved (svc i (requests ?r ! i))"
    using resi by (simp add: call_outcome_def)
  have r': "?r' = settle svc i ?r" by simp
  have full: "list_all is_fulfilled (promises ?r') \<longleftrightarrow> set (order @ [i]) = {0..<length catalog}"
    by (rule run_all_fulfilled [OF snoc.prems])
  note J = settle_resolved_join [where svc = svc and i = i and r = "?r", OF pend resi' ih(2)]
  show ?case
  proof (cases "set (order @ [i]) = {0..<length catalog}")
    case True
    then have "list_all is_fulfilled (promises (settle svc i ?r))" using full r' by simp
    from J(2) [OF this] J(1) ih(1) True
    show ?thesis unfolding r' by simp
  next
    case False
    then have "\<not> list_all is_fulfilled (promises (settle svc i ?r))" using full r' by simp
    from J(3) [OF this] J(1) ih False
    show ?thesis unfolding r' by simp
  qed
qed


lemma run_success:
  assumes "catalog \<noteq> []" "distinct order" "set order = {0..<length catalog}"
    and "\<forall>i<length catalog. call_outcome svc catalog img i = Resolved (payload i)"
  shows "generatedImages (app (settle_all svc order (begin_run catalog img s))) =
           map (\<lambda>i. \<lparr>expression = catalog ! i, base64 = PNG_PREFIX @ payload i\<rparr>)
             [0..<length catalog]"
    and "joined (settle_all svc order (begin_run catalog img s)) = Joined"
    and "\<not> isLoading (app (settle_all svc order (begin_run catalog img s)))"
    and "error (app (settle_all svc order (begin_run catalog img s))) = None"
proof -
  let ?r = "settle_all svc order (begin_run catalog img s)"
  have sub: "set order \<subseteq> {0..<length catalog}" using assms(3) by simp
  have res: "\<forall>i\<in>set order. resolved (call_outcome svc catalog img i)"
    using assms(3,4) by (simp add: resolved_def)
  from run_join_resolved [OF assms(1,2) sub res, of s] assms(3)
  have j: "joined ?r = Joined" "generatedImages (app ?r) = map value_of (promises ?r)"
    "\<not> isLoading (app ?r)" "error (app ?r) = None"
    by simp_all
  have "map value_of (promises ?r) =
          map (\<lambda>i. \<lparr>expression = catalog ! i, base64 = PNG_PREFIX @ payload i\<rparr>)
            [0..<length catalog]"
  proof (rule nth_equalityI)
    show "length (map value_of (promises ?r)) =
          length (map (\<lambda>i. \<lparr>expression = catalog ! i, base64 = PNG_PREFIX @ payload i\<rparr>)
            [0..<length catalog])"
      by simp
  next
    fix k assume "k < length (map value_of (promises ?r))"
    then have k: "k < length catalog" by simp
    then have "svc k (issue catalog img ! k) = Resolved (payload k)"
      using assms(4) by (simp add: call_outcome_def)
    then have "promises ?r ! k =
        Fulfilled \<lparr>expression = catalog ! k, base64 = PNG_PREFIX @ payload k\<rparr>"
      using run_promise [OF assms(2) sub k, of svc img s] assms(3) k
      by (simp add: settled_promise_def label_issue)
    then show "map value_of (promises ?r) ! k =
        map (\<lambda>i. \<lparr>expression = catalog ! i, base64 = PNG_PREFIX @ payload i\<rparr>)
          [0..<length catalog] ! k"
      using k by (simp add: value_of_def)
  qed
  with j show "generatedImages (app ?r) =
           map (\<lambda>i. \<lparr>expression = catalog ! i, base64 = PNG_PREFIX @ payload i\<rparr>)
             [0..<length catalog]"
    by simp
  from j show "joined ?r = Joined" "\<not> isLoading (app ?r)" "error (app ?r) = None"
    by simp_all
qed

lemma run_failure:
  assumes "catalog \<noteq> []" "distinct (pre @ j # post)"
    and "set (pre @ j # post) \<subseteq> {0..<length catalog}"
    and "\<forall>i\<in>set pre. resolved (call_outcome svc catalog img i)"
    and "call_outcome svc catalog img j = Rejected e"
  shows "joined (settle_all svc (pre @ j # post) (begin_run catalog img s)) = Failed"
    and "error (app (settle_all svc (pre @ j # post) (begin_run catalog img s))) =
           error_after e None"
    and "generatedImages (app (settle_all svc (pre @ j # post) (begin_run catalog img s))) = []"
    and "\<not> isLoading (app (settle_all svc (pre @ j # post) (begin_run catalog img s)))"
proof -
  let ?r = "settle_all svc pre (begin_run catalog img s)"
  have v: "distinct pre" "set pre \<subseteq> {0..<length catalog}" "j < length catalog" "j \<notin> set pre"
    using assms(2,3) by auto
  have ne: "set pre \<noteq> {0..<length catalog}" using v(3,4) by auto
  from run_join_resolved [OF assms(1) v(1) v(2) assms(4), of s] ne
  have a: "joined ?r = Awaiting" "generatedImages (app ?r) = []" "error (app ?r) = None"
    by simp_all
  have pend: "j < length (promises ?r)" "promises ?r ! j = Pending"
    using run_promise [OF v(1) v(2) v(3)] v(3) v(4) by simp_all
  have rej: "svc j (requests ?r ! j) = Rejected e"
    using assms(5) by (simp add: call_outcome_def)
  note F = settle_rejected_join [where svc = svc and i = j and r = "?r", OF pend rej a(1)]
  have split: "settle_all svc (pre @ j # post) (begin_run catalog img s) =
      settle_all svc post (settle svc j ?r)"
    by (simp add: settle_all_append)
  from settle_all_after_failure [OF F(1), of svc post] F a(2,3)
  show "joined (settle_all svc (pre @ j # post) (begin_run catalog img s)) = Failed"
    and "error (app (settle_all svc (pre @ j # post) (begin_run catalog img s))) =
           error_after e None"
    and "generatedImages (app (settle_all svc (pre @ j # post) (begin_run catalog img s))) = []"
    and "\<not> isLoading (app (settle_all svc (pre @ j # post) (begin_run catalog img s)))"
    unfolding split by simp_all
qed

lemma count_all_iff:
  assumes "distinct order" "set order \<subseteq> {0..<n}"
  shows "length (filter P order) = n \<longleftrightarrow> set order = {0..<n} \<and> (\<forall>i<n. P i)"
proof
  assume l: "length (filter P order) = n"
  have "card (set order) \<le> card {0..<n}" using assms(2) by (intro card_mono) simp_all
  then have le: "length order \<le> n" using assms(1) by (simp add: distinct_card)
  have "length (filter P order) \<le> length order" by (rule length_filter_le)
  with l le have len: "length order = n" by simp
  then have "card (set order) = card {0..<n}" using assms(1) by (simp add: distinct_card)
  then have eq: "set order = {0..<n}" using assms(2) by (intro card_subset_eq) simp_all
  have "\<forall>i\<in>set order. P i"
  proof (rule ccontr)
    assume "\<not> (\<forall>i\<in>set order. P i)"
    then obtain i where "i \<in> set order" "\<not> P i" by blast
    then have "length (filter P order) < length order" by (rule length_filter_less)
    with l len show False by simp
  qed
  with eq show "set order = {0..<n} \<and> (\<forall>i<n. P i)" by simp
next
  assume a: "set order = {0..<n} \<and> (\<forall>i<n. P i)"
  then have "filter P order = order" by (simp add: filter_id_conv)
  moreover have "length order = n" using a assms(1) distinct_card [of order] by simp
  ultimately show "length (filter P order) = n" by simp
qed

lemma count_le:
  assumes "distinct order" "set order \<subseteq> {0..<n}"
  shows "length (filter P order) \<le> n"
proof -
  have "card (set order) \<le> card {0..<n}" using assms(2) by (intro card_mono) simp_all
  then have "length order \<le> n" using assms(1) by (simp add: distinct_card)
  then show ?thesis using length_filter_le [of P order] by linarith
qed

lemma emitted_sorted:
  assumes "m \<le> 8"
  shows "sorted_wrt (<) (0 # map (\<lambda>k. percent k 8) [1..<Suc m])"
proof -
  have a: "sorted_wrt (\<lambda>j k. percent j 8 < percent k 8) [1..<Suc m]"
  proof (rule sorted_wrt_mono_rel [of _ "(<)"])
    fix x y
    assume "x \<in> set [1..<Suc m]" "y \<in> set [1..<Suc m]" "x < y"
    then have "x < y" "y \<le> 8" using assms by (auto simp only: set_upt atLeastLessThan_iff)
    then show "percent x 8 < percent y 8" by (rule percent_8_mono)
  next
    show "sorted_wrt (<) [1..<Suc m]" by (rule sorted_wrt_upt)
  qed
  have b: "0 < percent k 8" if "k \<in> set [1..<Suc m]" for k
  proof -
    from that have "0 < k" "k \<le> 8" using assms by (auto simp only: set_upt atLeastLessThan_iff)
    then show ?thesis by (rule percent_8_pos)
  qed
  have "sorted_wrt (<) (map (\<lambda>k. percent k 8) [1..<Suc m])"
    using a by (simp only: sorted_wrt_map)
  moreover have "\<forall>x\<in>set (map (\<lambda>k. percent k 8) [1..<Suc m]). 0 < x"
    using b by (simp only: set_map) blast
  ultimately show ?thesis by (simp only: sorted_wrt.simps)
qed

lemma emitted_100: "m \<le> 8 \<Longrightarrow> 100 \<in> set (0 # map (\<lambda>k. percent k 8) [1..<Suc m]) \<longleftrightarrow> m = 8"
proof
  assume m: "m \<le> 8" and "100 \<in> set (0 # map (\<lambda>k. percent k 8) [1..<Suc m])"
  then obtain k where k: "1 \<le> k" "k \<le> m" "percent k 8 = 100" by auto
  with m have "k = 8" using percent_8_100 [of k] by simp
  with k m show "m = 8" by simp
next
  assume "m = 8"
  moreover have "percent 8 8 = 100" using percent_8_100 [of 8] by simp
  ultimately show "100 \<in> set (0 # map (\<lambda>k. percent k 8) [1..<Suc m])"
    by (simp del: upt_Suc)
qed

lemma settle_image [simp]: "originalImage (app (settle svc i r)) = originalImage (app r)"
  by (simp add: settle_def Let_def split: outcome.splits)

lemma settle_all_image [simp]:
  "originalImage (app (settle_all svc order r)) = originalImage (app r)"
  by (induction order arbitrary: r) simp_all

lemma handle_with_image:
  "originalImage s = Some img \<Longrightarrow>
   handleGenerateExpressions catalog svc order s = settle_all svc order (begin_run catalog img s)"
  by (simp add: handleGenerateExpressions_def)

lemma reset_batch_same:
  "originalImage s = originalImage s' \<Longrightarrow> reset_batch s = reset_batch s'"
  by (cases s, cases s') (simp add: reset_batch_def)

lemma begin_run_same:
  "originalImage s = originalImage s' \<Longrightarrow> begin_run catalog img s = begin_run catalog img s'"
  by (simp add: begin_run_def reset_batch_same [of s s'])

lemma run_fails:
  assumes "catalog \<noteq> []" "distinct order" "set order \<subseteq> {0..<length catalog}"
    and "\<exists>i\<in>set order. \<not> resolved (call_outcome svc catalog img i)"
  shows "\<exists>pre j e post. order = pre @ j # post \<and>
           (\<forall>i\<in>set pre. resolved (call_outcome svc catalog img i)) \<and>
           call_outcome svc catalog img j = Rejected e \<and>
           error (app (settle_all svc order (begin_run catalog img s))) = error_after e None"
    and "joined (settle_all svc order (begin_run catalog img s)) = Failed"
    and "generatedImages (app (settle_all svc order (begin_run catalog img s))) = []"
    and "\<not> isLoading (app (settle_all svc order (begin_run catalog img s)))"
proof -
  from split_list_first_prop [OF assms(4)]
  obtain pre j post where o: "order = pre @ j # post"
    and j: "\<not> resolved (call_outcome svc catalog img j)"
    and pre: "\<forall>i\<in>set pre. \<not> \<not> resolved (call_outcome svc catalog img i)"
    by blast
  obtain e where e: "call_outcome svc catalog img j = Rejected e"
    using j by (cases "call_outcome svc catalog img j") (simp_all add: resolved_def)
  have pre': "\<forall>i\<in>set pre. resolved (call_outcome svc catalog img i)" using pre by simp
  note F = run_failure [OF assms(1) assms(2) [unfolded o] assms(3) [unfolded o] pre' e, of s,
      folded o]
  from F(2) o pre' e
  show "\<exists>pre j e post. order = pre @ j # post \<and>
           (\<forall>i\<in>set pre. resolved (call_outcome svc catalog img i)) \<and>
           call_outcome svc catalog img j = Rejected e \<and>
           error (app (settle_all svc order (begin_run catalog img s))) = error_after e None"
    by blast
  from F show "joined (settle_all svc order (begin_run catalog img s)) = Failed"
    and "generatedImages (app (settle_all svc order (begin_run catalog img s))) = []"
    and "\<not> isLoading (app (settle_all svc order (begin_run catalog img s)))"
    by simp_all
qed

section \<open>File names\<close>

lemma replace_parens_filter: "replace_parens s = filter (\<lambda>c. \<not> isParen c) s"
  by (induction s) simp_all

lemma runs_nonws_cons:
  assumes "\<not> isWhiteSpace c"
  shows "concat (map spec_underscore (runs (c # cs))) = c # concat (map spec_underscore (runs cs))"
proof (cases cs)
  case Nil
  then show ?thesis using assms by (simp add: spec_underscore_def)
next
  case (Cons d ds)
  then show ?thesis using assms by (cases "isWhiteSpace d") (simp_all add: spec_underscore_def)
qed

lemma replace_ws_runs: "replace_ws s = concat (map spec_underscore (runs s))"
proof (induction s rule: replace_ws.induct)
  case 1
  then show ?case by simp
next
  case (2 c cs)
  show ?case
  proof (cases "isWhiteSpace c")
    case True
    then have "(\<lambda>d. isWhiteSpace d = isWhiteSpace c) = isWhiteSpace" by auto
    with True 2 show ?thesis by (simp add: spec_underscore_def js_def)
  next
    case False
    with 2 show ?thesis by (simp add: runs_nonws_cons del: runs.simps)
  qed
qed

text \<open>
  C4: the name of an archive entry is the label without its parentheses, with each run
  of white space turned into one underscore, followed by \<^verbatim>\<open>.png\<close>; it depends on the
  label alone; \<^verbatim>\<open>Surprised (Gasp)\<close> gives \<^verbatim>\<open>Surprised_Gasp.png\<close> and \<^verbatim>\<open>Sad\<close> gives
  \<^verbatim>\<open>Sad.png\<close>.
\<close>

theorem fileName_derivation:
  "fileName img = spec_fileName (expression img)
   \<and> fileName (img\<lparr>base64 := b\<rparr>) = fileName img
   \<and> fileName \<lparr>expression = js ''Surprised (Gasp)'', base64 = b\<rparr> = js ''Surprised_Gasp.png''
   \<and> fileName \<lparr>expression = js ''Sad'', base64 = b\<rparr> = js ''Sad.png''"
proof -
  have 1: "fileName img = spec_fileName (expression img)"
    by (simp add: fileName_def spec_fileName_def spec_remove_parens_def replace_ws_runs
        replace_parens_filter)
  have 2: "fileName (img\<lparr>base64 := b\<rparr>) = fileName img"
    by (simp add: fileName_def)
  have 3: "fileName \<lparr>expression = js ''Surprised (Gasp)'', base64 = b\<rparr> = js ''Surprised_Gasp.png''"
    by (simp add: fileName_def js_def chr_def isParen_def isWhiteSpace_def)
  have 4: "fileName \<lparr>expression = js ''Sad'', base64 = b\<rparr> = js ''Sad.png''"
    by (simp add: fileName_def js_def chr_def isParen_def isWhiteSpace_def)
  from 1 2 3 4 show ?thesis by blast
qed

section \<open>Batch generation: the claims\<close>

text \<open>
  C1: with an image and a catalog of eight labels, when all eight calls succeed, then in
  whatever order they settle the handler stores exactly eight images, their labels are the
  catalog in its order, and the list is the one an in-order completion gives.
\<close>

theorem generateAll_catalog_order:
  assumes "originalImage s = Some img" and "length catalog = 8"
    and "distinct order" and "set order = {0..<8}"
    and "\<forall>i<8. call_outcome svc catalog img i = Resolved (payload i)"
  shows "length (generatedImages (app (handleGenerateExpressions catalog svc order s))) = 8
       \<and> map expression (generatedImages (app (handleGenerateExpressions catalog svc order s)))
           = catalog
       \<and> generatedImages (app (handleGenerateExpressions catalog svc order s))
           = generatedImages (app (handleGenerateExpressions catalog svc [0..<8] s))
       \<and> joined (handleGenerateExpressions catalog svc order s) = Joined"
proof -
  have ne: "catalog \<noteq> []" using assms(2) by auto
  have o: "set order = {0..<length catalog}" using assms(2,4) by simp
  have p: "\<forall>i<length catalog. call_outcome svc catalog img i = Resolved (payload i)"
    using assms(2,5) by simp
  note S = run_success [OF ne assms(3) o p, of s]
  have o': "set [0..<8] = {0..<length catalog}" using assms(2) by simp
  note S' = run_success [OF ne _ o' p, of s]
  have "map expression (map (\<lambda>i. \<lparr>expression = catalog ! i, base64 = PNG_PREFIX @ payload i\<rparr>)
          [0..<length catalog]) = catalog"
    by (simp add: comp_def map_nth)
  with S(1) S(2) S'(1) assms(2) show ?thesis
    by (simp add: handle_with_image [OF assms(1)])
qed

theorem generateAll_catalog_order_witness:
  "map expression
     (generatedImages (app (handleGenerateExpressions demo_catalog demo_service
        [3, 1, 7, 0, 2, 6, 5, 4] demo_app))) = demo_catalog
   \<and> length (generatedImages (app (handleGenerateExpressions demo_catalog demo_service
        [3, 1, 7, 0, 2, 6, 5, 4] demo_app))) = 8"
proof -
  have 1: "originalImage demo_app = Some demo_image"
    by (simp add: demo_app_def handleImageUpload_def)
  have 2: "length demo_catalog = 8" by (simp add: demo_catalog_def)
  have 3: "distinct [3, 1, 7, 0, 2, 6, 5, 4 :: nat]" by simp
  have 4: "set [3, 1, 7, 0, 2, 6, 5, 4 :: nat] = {0..<8}" by code_simp
  have 5: "\<forall>i<8. call_outcome demo_service demo_catalog demo_image i = Resolved (demo_payloads ! i)"
    by (simp add: call_outcome_def demo_service_def at_index_def demo_payloads_def)
  from generateAll_catalog_order [OF 1 2 3 4 5] show ?thesis by blast
qed

text \<open>
  C2, as stated, fails: the third call of the sample batch rejects with an empty message,
  and the error the handler stores is the fixed text, not that message.
\<close>

theorem empty_message_counterexample:
  "call_outcome silent_service demo_catalog demo_image 2 = Rejected (Thrown (Some []))
   \<and> joined (handleGenerateExpressions demo_catalog silent_service
        [0, 1, 2, 3, 4, 5, 6, 7] demo_app) = Failed
   \<and> error (app (handleGenerateExpressions demo_catalog silent_service
        [0, 1, 2, 3, 4, 5, 6, 7] demo_app)) =
       Some (js ''An unknown error occurred during image generation.'')
   \<and> error (app (handleGenerateExpressions demo_catalog silent_service
        [0, 1, 2, 3, 4, 5, 6, 7] demo_app)) \<noteq> Some []"
  by code_simp

text \<open>
  C2, amended: when at least one call that has settled has failed, the batch fails: no
  image is stored (the list stays empty) and the loading flag is cleared. When the first
  call to fail rejected with a value (anything but \<^verbatim>\<open>undefined\<close> or \<^verbatim>\<open>null\<close>), the error
  stored is the message of that value, or the fixed text when the message is missing or
  empty.
\<close>

theorem generateAll_fail_fast:
  assumes "originalImage s = Some img" and "length catalog = 8"
    and "distinct order" and "set order \<subseteq> {0..<8}"
    and "\<exists>i\<in>set order. \<not> resolved (call_outcome svc catalog img i)"
  shows "(\<exists>pre j e post. order = pre @ j # post
            \<and> (\<forall>i\<in>set pre. resolved (call_outcome svc catalog img i))
            \<and> call_outcome svc catalog img j = Rejected e
            \<and> (\<forall>message. e = Thrown message \<longrightarrow>
                  error (app (handleGenerateExpressions catalog svc order s)) =
                    Some (case message of None \<Rightarrow> UNKNOWN_ERROR
                          | Some m \<Rightarrow> if m = [] then UNKNOWN_ERROR else m)))
       \<and> joined (handleGenerateExpressions catalog svc order s) = Failed
       \<and> generatedImages (app (handleGenerateExpressions catalog svc order s)) = []
       \<and> \<not> isLoading (app (handleGenerateExpressions catalog svc order s))"
proof -
  let ?r = "handleGenerateExpressions catalog svc order s"
  have ne: "catalog \<noteq> []" using assms(2) by auto
  have sub: "set order \<subseteq> {0..<length catalog}" using assms(2,4) by simp
  note F = run_fails [OF ne assms(3) sub assms(5), of s,
      folded handle_with_image [OF assms(1), of catalog svc order]]
  from F(1) obtain pre j e post where o: "order = pre @ j # post"
    and pre: "\<forall>i\<in>set pre. resolved (call_outcome svc catalog img i)"
    and e: "call_outcome svc catalog img j = Rejected e"
    and err: "error (app ?r) = error_after e None"
    by blast
  have "\<forall>message. e = Thrown message \<longrightarrow>
      error (app ?r) = Some (case message of None \<Rightarrow> UNKNOWN_ERROR
                             | Some m \<Rightarrow> if m = [] then UNKNOWN_ERROR else m)"
    by (simp add: err error_after_def error_text_def)
  with o pre e have "\<exists>pre j e post. order = pre @ j # post
            \<and> (\<forall>i\<in>set pre. resolved (call_outcome svc catalog img i))
            \<and> call_outcome svc catalog img j = Rejected e
            \<and> (\<forall>message. e = Thrown message \<longrightarrow>
                  error (app ?r) =
                    Some (case message of None \<Rightarrow> UNKNOWN_ERROR
                          | Some m \<Rightarrow> if m = [] then UNKNOWN_ERROR else m))"
    by blast
  with F(2-4) show ?thesis by blast
qed

theorem generateAll_fail_fast_witness:
  "error (app (handleGenerateExpressions demo_catalog failing_service
       [3, 1, 7, 5, 2, 6, 0, 4] demo_app)) = Some (js ''quota exceeded'')
   \<and> joined (handleGenerateExpressions demo_catalog failing_service
       [3, 1, 7, 5, 2, 6, 0, 4] demo_app) = Failed
   \<and> generatedImages (app (handleGenerateExpressions demo_catalog failing_service
       [3, 1, 7, 5, 2, 6, 0, 4] demo_app)) = []"
proof -
  let ?r = "handleGenerateExpressions demo_catalog failing_service
       [3, 1, 7, 5, 2, 6, 0, 4] demo_app"
  have 1: "originalImage demo_app = Some demo_image"
    by (simp add: demo_app_def handleImageUpload_def)
  have 2: "length demo_catalog = 8" by (simp add: demo_catalog_def)
  have 3: "distinct [3, 1, 7, 5, 2, 6, 0, 4 :: nat]" by simp
  have 4: "set [3, 1, 7, 5, 2, 6, 0, 4 :: nat] \<subseteq> {0..<8}" by simp
  have 5: "\<exists>i\<in>set [3, 1, 7, 5, 2, 6, 0, 4 :: nat].
      \<not> resolved (call_outcome failing_service demo_catalog demo_image i)"
    by (simp add: call_outcome_def failing_service_def resolved_def)
  note T = generateAll_fail_fast [OF 1 2 3 4 5]
  from T obtain pre j e post where o: "[3, 1, 7, 5, 2, 6, 0, 4] = pre @ j # post"
    and e: "call_outcome failing_service demo_catalog demo_image j = Rejected e"
    and err: "\<forall>message. e = Thrown message \<longrightarrow>
        error (app ?r) = Some (case message of None \<Rightarrow> UNKNOWN_ERROR
                               | Some m \<Rightarrow> if m = [] then UNKNOWN_ERROR else m)"
    by blast
  have "j \<in> set (pre @ j # post)" by simp
  then have j: "j \<in> set [3, 1, 7, 5, 2, 6, 0, 4]" by (simp only: o)
  have "j = 5"
    using j e
    by (auto simp: call_outcome_def failing_service_def demo_service_def at_index_def
        demo_payloads_def)
  then have "e = Thrown (Some (js ''quota exceeded''))"
    using e by (simp add: call_outcome_def failing_service_def)
  with err have "error (app ?r) = Some (js ''quota exceeded'')"
    by (simp add: js_def)
  with T show ?thesis by blast
qed

text \<open>
  A rejection with \<^verbatim>\<open>undefined\<close>: the \<^verbatim>\<open>catch\<close> block throws before \<^verbatim>\<open>setError\<close>, so the
  batch fails with no error stored; the loading flag is cleared all the same.
\<close>

lemma nullish_rejection_example:
  "call_outcome nullish_service demo_catalog demo_image 4 = Rejected Nullish
   \<and> joined (handleGenerateExpressions demo_catalog nullish_service
        [0, 1, 2, 3, 4, 5, 6, 7] demo_app) = Failed
   \<and> error (app (handleGenerateExpressions demo_catalog nullish_service
        [0, 1, 2, 3, 4, 5, 6, 7] demo_app)) = None
   \<and> generatedImages (app (handleGenerateExpressions demo_catalog nullish_service
        [0, 1, 2, 3, 4, 5, 6, 7] demo_app)) = []
   \<and> isLoading (app (handleGenerateExpressions demo_catalog nullish_service
        [0, 1, 2, 3, 4, 5, 6, 7] demo_app)) = False"
  by code_simp

text \<open>
  C3: the counter counts exactly the calls that have settled with success; the values
  passed to \<open>setProgress\<close> are 0 at the start and then, after the k-th success,
  \<open>round (100 k / 8)\<close>; the state holds the last of them; they increase strictly; and 100
  is among them exactly when all eight calls have settled with success.
\<close>

theorem progress_counter:
  assumes "originalImage s = Some img" and "length catalog = 8"
    and "distinct order" and "set order \<subseteq> {0..<8}"
  shows "completedCount (handleGenerateExpressions catalog svc order s) =
           length (filter (\<lambda>i. resolved (call_outcome svc catalog img i)) order)
       \<and> emitted (handleGenerateExpressions catalog svc order s) =
           0 # map (\<lambda>k. round (100 * of_nat k / 8 :: rat))
                 [1..<Suc (completedCount (handleGenerateExpressions catalog svc order s))]
       \<and> progress (app (handleGenerateExpressions catalog svc order s)) =
           last (emitted (handleGenerateExpressions catalog svc order s))
       \<and> sorted_wrt (<) (emitted (handleGenerateExpressions catalog svc order s))
       \<and> (100 \<in> set (emitted (handleGenerateExpressions catalog svc order s)) \<longleftrightarrow>
            set order = {0..<8} \<and> (\<forall>i<8. resolved (call_outcome svc catalog img i)))"
proof -
  let ?r = "settle_all svc order (begin_run catalog img s)"
  let ?m = "completedCount ?r"
  have h: "handleGenerateExpressions catalog svc order s = ?r"
    by (rule handle_with_image [OF assms(1)])
  have sub: "set order \<subseteq> {0..<length catalog}" using assms(2,4) by simp
  have c: "?m = length (filter (\<lambda>i. resolved (call_outcome svc catalog img i)) order)"
    by (rule run_count [OF assms(3) sub])
  have e: "emitted ?r = 0 # map (\<lambda>k. percent k 8) [1..<Suc ?m]"
    using run_emitted [OF assms(3) sub, of svc img s] assms(2) by simp
  have p: "progress (app ?r) = percent ?m 8"
    using run_progress [OF assms(3) sub, of svc img s] assms(2) by simp
  have le: "?m \<le> 8"
    unfolding c by (rule count_le [OF assms(3,4)])
  have "map (\<lambda>k. percent k 8) [1..<Suc ?m] =
      map (\<lambda>k. round (100 * of_nat k / 8 :: rat)) [1..<Suc ?m]"
    using le by (intro map_cong) (simp_all add: percent_round del: upt_Suc)
  then have 1: "emitted ?r = 0 # map (\<lambda>k. round (100 * of_nat k / 8 :: rat)) [1..<Suc ?m]"
    unfolding e by simp
  have 2: "progress (app ?r) = last (emitted ?r)"
    unfolding e p by (cases ?m) (simp_all add: percent_0)
  have 3: "sorted_wrt (<) (emitted ?r)"
    unfolding e by (rule emitted_sorted [OF le])
  have "100 \<in> set (emitted ?r) \<longleftrightarrow> ?m = 8"
    unfolding e by (rule emitted_100 [OF le])
  also have "\<dots> \<longleftrightarrow> set order = {0..<8} \<and> (\<forall>i<8. resolved (call_outcome svc catalog img i))"
    unfolding c by (rule count_all_iff [OF assms(3,4)])
  finally have 4: "100 \<in> set (emitted ?r) \<longleftrightarrow>
      set order = {0..<8} \<and> (\<forall>i<8. resolved (call_outcome svc catalog img i))" .
  from c 1 2 3 4 show ?thesis unfolding h by blast
qed

theorem progress_counter_witness:
  "completedCount (handleGenerateExpressions demo_catalog failing_service
       [3, 1, 7, 5, 2, 6, 0] demo_app) = 6
   \<and> emitted (handleGenerateExpressions demo_catalog failing_service
       [3, 1, 7, 5, 2, 6, 0] demo_app) = [0, 13, 25, 38, 50, 63, 75]
   \<and> sorted_wrt (<) (emitted (handleGenerateExpressions demo_catalog failing_service
       [3, 1, 7, 5, 2, 6, 0] demo_app))"
proof -
  have 1: "originalImage demo_app = Some demo_image"
    by (simp add: demo_app_def handleImageUpload_def)
  have 2: "length demo_catalog = 8" by (simp add: demo_catalog_def)
  have 3: "distinct [3, 1, 7, 5, 2, 6, 0 :: nat]" by simp
  have 4: "set [3, 1, 7, 5, 2, 6, 0 :: nat] \<subseteq> {0..<8}" by simp
  have 5: "length (filter (\<lambda>i. resolved (call_outcome failing_service demo_catalog demo_image i))
      [3, 1, 7, 5, 2, 6, 0]) = 6"
    by (simp add: call_outcome_def failing_service_def demo_service_def at_index_def
        demo_payloads_def resolved_def)
  have 6: "0 # map (\<lambda>k. round (100 * of_nat k / 8 :: rat)) [1..<Suc 6] = [0, 13, 25, 38, 50, 63, 75]"
    by code_simp
  note P = progress_counter [OF 1 2 3 4, of failing_service]
  have a: "completedCount (handleGenerateExpressions demo_catalog failing_service
       [3, 1, 7, 5, 2, 6, 0] demo_app) = 6"
    using P unfolding 5 by blast
  have b: "emitted (handleGenerateExpressions demo_catalog failing_service
       [3, 1, 7, 5, 2, 6, 0] demo_app) = [0, 13, 25, 38, 50, 63, 75]"
    using P unfolding a 6 by blast
  from a b P show ?thesis by blast
qed

text \<open>
  C9: without an uploaded image the handler returns at once: no call is issued, nothing
  is passed to \<open>setProgress\<close>, and the component state is as before.
\<close>

theorem no_image_no_run:
  assumes "originalImage s = None"
  shows "handleGenerateExpressions catalog svc order s = no_run s
       \<and> app (handleGenerateExpressions catalog svc order s) = s
       \<and> requests (handleGenerateExpressions catalog svc order s) = []
       \<and> emitted (handleGenerateExpressions catalog svc order s) = []
       \<and> joined (handleGenerateExpressions catalog svc order s) = Returned"
  using assms by (simp add: handleGenerateExpressions_def no_run_def)

theorem no_image_no_run_witness:
  "app (handleGenerateExpressions demo_catalog demo_service [0, 1, 2] initialApp) = initialApp
   \<and> requests (handleGenerateExpressions demo_catalog demo_service [0, 1, 2] initialApp) = []"
proof -
  have "originalImage initialApp = None" by (simp add: initialApp_def)
  from no_image_no_run [OF this] show ?thesis by blast
qed

text \<open>
  C10: in a batch whose eight calls all succeed, the encoded image of entry \<open>i\<close> is the
  fixed prefix \<^verbatim>\<open>data:image/png;base64,\<close> followed by the payload of call \<open>i\<close>, whatever
  the uploaded image and its media type are.
\<close>

theorem generated_image_prefix:
  assumes "originalImage s = Some img" and "length catalog = 8"
    and "distinct order" and "set order = {0..<8}"
    and "\<forall>i<8. call_outcome svc catalog img i = Resolved (payload i)"
  shows "\<forall>i<8. base64 (generatedImages (app (handleGenerateExpressions catalog svc order s)) ! i)
           = js ''data:image/png;base64,'' @ payload i"
proof -
  have ne: "catalog \<noteq> []" using assms(2) by auto
  have o: "set order = {0..<length catalog}" using assms(2,4) by simp
  have p: "\<forall>i<length catalog. call_outcome svc catalog img i = Resolved (payload i)"
    using assms(2,5) by simp
  from run_success(1) [OF ne assms(3) o p, of s] assms(2)
  show ?thesis
    by (simp add: handle_with_image [OF assms(1)] PNG_PREFIX_def)
qed

theorem generated_image_prefix_witness:
  "base64 (generatedImages (app (handleGenerateExpressions demo_catalog demo_service
       [3, 1, 7, 0, 2, 6, 5, 4] demo_app)) ! 3) = js ''data:image/png;base64,RA==''"
proof -
  have 1: "originalImage demo_app = Some demo_image"
    by (simp add: demo_app_def handleImageUpload_def)
  have 2: "length demo_catalog = 8" by (simp add: demo_catalog_def)
  have 3: "distinct [3, 1, 7, 0, 2, 6, 5, 4 :: nat]" by simp
  have 4: "set [3, 1, 7, 0, 2, 6, 5, 4 :: nat] = {0..<8}" by code_simp
  have 5: "\<forall>i<8. call_outcome demo_service demo_catalog demo_image i = Resolved (demo_payloads ! i)"
    by (simp add: call_outcome_def demo_service_def at_index_def demo_payloads_def)
  have 6: "js ''data:image/png;base64,'' @ demo_payloads ! 3 = js ''data:image/png;base64,RA==''"
    by (simp add: demo_payloads_def js_def)
  from generated_image_prefix [OF 1 2 3 4 5] have
    "base64 (generatedImages (app (handleGenerateExpressions demo_catalog demo_service
       [3, 1, 7, 0, 2, 6, 5, 4] demo_app)) ! 3) = js ''data:image/png;base64,'' @ demo_payloads ! 3"
    by simp
  then show ?thesis unfolding 6 .
qed

text \<open>
  C6: after a batch that has failed, the next invocation first resets the state
  (progress 0, no images, no error) and starts its own counter at 0, and only then issues
  its calls; the whole run is the run the same calls give on the state before the failed
  batch, so nothing of the failed batch is in its result. A call of the failed batch that
  settles later leaves the stored images as they are.
\<close>

theorem rerun_after_failure:
  assumes "originalImage s = Some img" and "length catalog = 8"
    and "distinct order" and "set order \<subseteq> {0..<8}"
    and "\<exists>i\<in>set order. \<not> resolved (call_outcome svc catalog img i)"
  shows "joined (handleGenerateExpressions catalog svc order s) = Failed
       \<and> originalImage (app (handleGenerateExpressions catalog svc order s)) = Some img
       \<and> app (begin_run catalog img (app (handleGenerateExpressions catalog svc order s))) =
           reset_batch (app (handleGenerateExpressions catalog svc order s))
       \<and> progress (reset_batch (app (handleGenerateExpressions catalog svc order s))) = 0
       \<and> generatedImages (reset_batch (app (handleGenerateExpressions catalog svc order s))) = []
       \<and> error (reset_batch (app (handleGenerateExpressions catalog svc order s))) = None
       \<and> completedCount
           (begin_run catalog img (app (handleGenerateExpressions catalog svc order s))) = 0
       \<and> handleGenerateExpressions catalog svc' order'
           (app (handleGenerateExpressions catalog svc order s)) =
           handleGenerateExpressions catalog svc' order' s
       \<and> generatedImages (app (settle svc i
           ((handleGenerateExpressions catalog svc order s)\<lparr>app := a\<rparr>))) = generatedImages a"
proof -
  let ?r = "handleGenerateExpressions catalog svc order s"
  have ne: "catalog \<noteq> []" using assms(2) by auto
  have sub: "set order \<subseteq> {0..<length catalog}" using assms(2,4) by simp
  have h: "?r = settle_all svc order (begin_run catalog img s)"
    by (rule handle_with_image [OF assms(1)])
  note F = run_fails [OF ne assms(3) sub assms(5), of s, folded h]
  have 1: "joined ?r = Failed" by (rule F(2))
  have 2: "originalImage (app ?r) = Some img" unfolding h using assms(1) by simp
  have 3: "app (begin_run catalog img (app ?r)) = reset_batch (app ?r)"
    by (rule begin_run_awaiting(4) [OF ne])
  have 4: "progress (reset_batch (app ?r)) = 0" "generatedImages (reset_batch (app ?r)) = []"
    "error (reset_batch (app ?r)) = None"
    by (simp_all add: reset_batch_def)
  have 5: "completedCount (begin_run catalog img (app ?r)) = 0" by simp
  have same: "begin_run catalog img (app ?r) = begin_run catalog img s"
    by (rule begin_run_same) (simp add: 2 assms(1))
  have "handleGenerateExpressions catalog svc' order' (app ?r) =
      settle_all svc' order' (begin_run catalog img (app ?r))"
    by (rule handle_with_image [OF 2])
  also have "\<dots> = settle_all svc' order' (begin_run catalog img s)"
    by (simp only: same)
  also have "\<dots> = handleGenerateExpressions catalog svc' order' s"
    by (rule handle_with_image [OF assms(1), symmetric])
  finally have 6: "handleGenerateExpressions catalog svc' order' (app ?r) =
      handleGenerateExpressions catalog svc' order' s" .
  have "joined (?r\<lparr>app := a\<rparr>) = Failed" using F(2) by simp
  from settle_after_failure(3) [OF this, of svc i]
  have 7: "generatedImages (app (settle svc i (?r\<lparr>app := a\<rparr>))) = generatedImages a"
    by simp
  from 1 2 3 4 5 6 7 show ?thesis by blast
qed

theorem rerun_after_failure_witness:
  "joined (handleGenerateExpressions demo_catalog failing_service
       [3, 1, 7, 5, 2, 6, 0, 4] demo_app) = Failed
   \<and> progress (reset_batch (app (handleGenerateExpressions demo_catalog failing_service
       [3, 1, 7, 5, 2, 6, 0, 4] demo_app))) = 0
   \<and> handleGenerateExpressions demo_catalog demo_service [3, 1, 7, 0, 2, 6, 5, 4]
       (app (handleGenerateExpressions demo_catalog failing_service
          [3, 1, 7, 5, 2, 6, 0, 4] demo_app)) =
       handleGenerateExpressions demo_catalog demo_service [3, 1, 7, 0, 2, 6, 5, 4] demo_app"
proof -
  have 1: "originalImage demo_app = Some demo_image"
    by (simp add: demo_app_def handleImageUpload_def)
  have 2: "length demo_catalog = 8" by (simp add: demo_catalog_def)
  have 3: "distinct [3, 1, 7, 5, 2, 6, 0, 4 :: nat]" by simp
  have 4: "set [3, 1, 7, 5, 2, 6, 0, 4 :: nat] \<subseteq> {0..<8}" by simp
  have 5: "\<exists>i\<in>set [3, 1, 7, 5, 2, 6, 0, 4 :: nat].
      \<not> resolved (call_outcome failing_service demo_catalog demo_image i)"
    by (simp add: call_outcome_def failing_service_def resolved_def)
  from rerun_after_failure [OF 1 2 3 4 5, of demo_service "[3, 1, 7, 0, 2, 6, 5, 4]"]
  show ?thesis by blast
qed

section \<open>Image ingestion: the claim\<close>

lemma first_file_cases:
  "handleFileChange files = Some f \<longleftrightarrow>
     (\<exists>fs. files = Some (f # fs)) \<and> startsWith (type f) (js ''image/'')"
  by (cases files; cases "the files")
    (auto simp: handleFileChange_def at_index_def split: option.splits)

text \<open>
  C8: a read is started only for a first selected file whose declared type starts with
  \<^verbatim>\<open>image/\<close>, and such a file becomes the original image; any other selection is
  dropped without a message and leaves the component state as it is.
\<close>

theorem ingest_image_only:
  "(\<forall>f. handleFileChange files = Some f \<longrightarrow>
        (\<exists>fs. files = Some (f # fs)) \<and> startsWith (type f) (js ''image/''))
   \<and> (\<forall>f fs. files = Some (f # fs) \<and> startsWith (type f) (js ''image/'') \<longrightarrow>
        handleFileChange files = Some f
        \<and> ingest readAsDataURL files s =
            handleImageUpload \<lparr>file' = f, dataUrl = readAsDataURL f\<rparr> s)
   \<and> (\<forall>f fs. files = Some (f # fs) \<and> \<not> startsWith (type f) (js ''image/'') \<longrightarrow>
        handleFileChange files = None \<and> ingest readAsDataURL files s = s)
   \<and> (handleFileChange files = None \<longrightarrow> ingest readAsDataURL files s = s)"
proof -
  have 1: "\<forall>f. handleFileChange files = Some f \<longrightarrow>
        (\<exists>fs. files = Some (f # fs)) \<and> startsWith (type f) (js ''image/'')"
    by (simp add: first_file_cases)
  have 2: "\<forall>f fs. files = Some (f # fs) \<and> startsWith (type f) (js ''image/'') \<longrightarrow>
        handleFileChange files = Some f
        \<and> ingest readAsDataURL files s =
            handleImageUpload \<lparr>file' = f, dataUrl = readAsDataURL f\<rparr> s"
    by (simp add: handleFileChange_def at_index_def ingest_def onloadend_def)
  have 3: "\<forall>f fs. files = Some (f # fs) \<and> \<not> startsWith (type f) (js ''image/'') \<longrightarrow>
        handleFileChange files = None \<and> ingest readAsDataURL files s = s"
    by (simp add: handleFileChange_def at_index_def ingest_def)
  have 4: "handleFileChange files = None \<longrightarrow> ingest readAsDataURL files s = s"
    by (simp add: ingest_def)
  from 1 2 3 4 show ?thesis by blast
qed

theorem ingest_image_only_witness:
  "ingest sample_reader (Some [text_file]) demo_app = demo_app
   \<and> handleFileChange (Some [text_file]) = None
   \<and> handleFileChange (Some [png_file]) = Some png_file
   \<and> originalImage (ingest sample_reader (Some [png_file]) initialApp) =
       Some \<lparr>file' = png_file, dataUrl = js ''data:image/png;base64,QUJD''\<rparr>"
proof -
  have t: "\<not> startsWith (type text_file) (js ''image/'')"
    by (simp add: text_file_def startsWith_def js_def chr_def)
  have p: "startsWith (type png_file) (js ''image/'')"
    by (simp add: png_file_def startsWith_def js_def chr_def)
  have r: "sample_reader png_file = js ''data:image/png;base64,QUJD''"
    by (simp add: sample_reader_def png_file_def js_def)
  note I = ingest_image_only [of "Some [text_file]" sample_reader demo_app]
  note J = ingest_image_only [of "Some [png_file]" sample_reader initialApp]
  have a: "handleFileChange (Some [text_file]) = None
      \<and> ingest sample_reader (Some [text_file]) demo_app = demo_app"
    using I t by blast
  have b: "handleFileChange (Some [png_file]) = Some png_file
      \<and> ingest sample_reader (Some [png_file]) initialApp =
          handleImageUpload \<lparr>file' = png_file, dataUrl = sample_reader png_file\<rparr> initialApp"
    using J p by blast
  from a b show ?thesis by (simp add: r handleImageUpload_def)
qed

section \<open>Archive export: the claims\<close>

lemma split_no_sep: "sep \<notin> set s \<Longrightarrow> split sep s = [s]"
  by (induction s) auto

lemma split_first: "sep \<notin> set pre \<Longrightarrow> split sep (pre @ sep # rest) = pre # split sep rest"
  by (induction pre) auto

lemma payload_of_data_url:
  assumes "sep \<notin> set pre" "sep \<notin> set p"
  shows "at_index (split sep (pre @ sep # p)) (Suc 0) = Some p"
  using assms by (simp add: split_first split_no_sep at_index_def)

lemma zip_file_fresh: "name obj \<notin> name ` set z \<Longrightarrow> zip_file z obj = z @ [obj]"
  by (induction z) auto

lemma foldl_add_image_distinct:
  assumes "distinct (map name z @ map fileName imgs)"
  shows "foldl add_image z imgs = z @ map zip_entry imgs"
  using assms
proof (induction imgs arbitrary: z)
  case Nil
  then show ?case by simp
next
  case (Cons img imgs)
  have n: "name (zip_entry img) = fileName img" by (simp add: zip_entry_def)
  have fresh: "name (zip_entry img) \<notin> name ` set z"
    using Cons.prems by (auto simp: n)
  have step: "add_image z img = z @ [zip_entry img]"
    unfolding add_image_def by (rule zip_file_fresh [OF fresh])
  have "distinct (map name (z @ [zip_entry img]) @ map fileName imgs)"
    using Cons.prems by (auto simp: n)
  from Cons.IH [OF this] show ?case by (simp add: step)
qed

text \<open>
  C7: on an empty list of generated images the export handler returns at once and
  produces no archive; an archive is produced only from a non-empty list, which is also
  what the render condition of the download button asks for.
\<close>

theorem export_empty_noop:
  "(generatedImages s = [] \<longrightarrow> handleDownloadAll s = None)
   \<and> (\<forall>d. handleDownloadAll s = Some d \<longrightarrow> generatedImages s \<noteq> [])
   \<and> (download_offered s \<longrightarrow> generatedImages s \<noteq> [] \<and> handleDownloadAll s \<noteq> None)"
  by (auto simp: handleDownloadAll_def download_offered_def)

theorem export_empty_noop_witness:
  "generatedImages initialApp = [] \<and> handleDownloadAll initialApp = None"
proof -
  have e: "generatedImages initialApp = []" by (simp add: initialApp_def)
  from export_empty_noop [of initialApp, THEN conjunct1, THEN mp, OF e] e
  show ?thesis by blast
qed

text \<open>
  C5, as stated, fails: a batch over a catalog with the labels \<^verbatim>\<open>Sad\<close> and \<^verbatim>\<open>(Sad)\<close>
  stores eight images, both labels give the name \<^verbatim>\<open>Sad.png\<close>, and the archive has seven
  entries.
\<close>

theorem colliding_names_counterexample:
  "length (generatedImages colliding_app) = 8
   \<and> map_option (length \<circ> content) (handleDownloadAll colliding_app) = Some 7"
  by code_simp

text \<open>
  C5, amended: for a non-empty list of images whose derived file names are pairwise
  distinct, each image being a media-type prefix, a comma and a payload without a comma,
  the archive has one entry per image, in the order of the list: its name is the derived
  file name, its text is the payload (the prefix up to and including the first comma is
  stripped) and it is flagged as base64, so the bytes stored are the decoding of the
  payload.
\<close>

theorem exportArchive_entries:
  assumes "generatedImages s \<noteq> []"
    and "distinct (map fileName (generatedImages s))"
    and "\<forall>img\<in>set (generatedImages s).
           base64 img = mediaType img @ chr CHR '','' # payload img
           \<and> chr CHR '','' \<notin> set (mediaType img) \<and> chr CHR '','' \<notin> set (payload img)"
  shows "handleDownloadAll s =
           Some \<lparr>content = map (\<lambda>img. \<lparr>name = fileName img, data = Some (payload img),
                                       opt_base64 = True\<rparr>) (generatedImages s),
                 download = js ''character_expressions.zip''\<rparr>
       \<and> (\<exists>d. handleDownloadAll s = Some d
              \<and> length (content d) = length (generatedImages s)
              \<and> map (stored_bytes decode encode) (content d) =
                  map (\<lambda>img. decode (payload img)) (generatedImages s))"
proof -
  have "foldl add_image [] (generatedImages s) = [] @ map zip_entry (generatedImages s)"
    by (rule foldl_add_image_distinct) (simp add: assms(2))
  moreover have "map zip_entry (generatedImages s) =
      map (\<lambda>img. \<lparr>name = fileName img, data = Some (payload img), opt_base64 = True\<rparr>)
        (generatedImages s)"
    using assms(3) by (simp add: zip_entry_def payload_of_data_url)
  ultimately have "handleDownloadAll s =
           Some \<lparr>content = map (\<lambda>img. \<lparr>name = fileName img, data = Some (payload img),
                                       opt_base64 = True\<rparr>) (generatedImages s),
                 download = js ''character_expressions.zip''\<rparr>"
    using assms(1) by (simp add: handleDownloadAll_def)
  then show ?thesis by (simp add: stored_bytes_def comp_def)
qed

theorem exportArchive_entries_witness:
  "length (generatedImages finished_app) = 8
   \<and> (\<exists>d. handleDownloadAll finished_app = Some d \<and> length (content d) = 8
          \<and> map name (content d) =
              map js [''Happy.png'', ''Sad.png'', ''Angry.png'', ''Surprised_Gasp.png'',
                ''Disgusted.png'', ''Fearful.png'', ''Neutral.png'', ''Laughing.png'']
          \<and> map data (content d) = map Some demo_payloads)"
proof -
  have g: "generatedImages finished_app =
      map (\<lambda>i. \<lparr>expression = demo_catalog ! i, base64 = PNG_PREFIX @ demo_payloads ! i\<rparr>)
        [0, 1, 2, 3, 4, 5, 6, 7]"
    unfolding finished_app_def by code_simp
  have 1: "generatedImages finished_app \<noteq> []" unfolding g by simp
  have 2: "distinct (map fileName (generatedImages finished_app))"
    unfolding g by code_simp
  have p: "PNG_PREFIX = js ''data:image/png;base64'' @ [chr CHR '','']"
    by (simp add: PNG_PREFIX_def js_def)
  have 3: "\<forall>img\<in>set (generatedImages finished_app).
      base64 img = js ''data:image/png;base64'' @ chr CHR '','' # drop 22 (base64 img)
      \<and> chr CHR '','' \<notin> set (js ''data:image/png;base64'')
      \<and> chr CHR '','' \<notin> set (drop 22 (base64 img))"
    unfolding g by code_simp
  have n: "map fileName (generatedImages finished_app) =
      map js [''Happy.png'', ''Sad.png'', ''Angry.png'', ''Surprised_Gasp.png'',
        ''Disgusted.png'', ''Fearful.png'', ''Neutral.png'', ''Laughing.png'']"
    unfolding g by code_simp
  have d: "map (\<lambda>img. Some (drop 22 (base64 img))) (generatedImages finished_app) =
      map Some demo_payloads"
    unfolding g by code_simp
  have l: "length (generatedImages finished_app) = 8" unfolding g by simp
  from exportArchive_entries [OF 1 2 3, THEN conjunct1] n d l
  show ?thesis by (simp add: comp_def)
qed

end
